theory Spec2Isabelle
  imports Complex_Main "HOL-Library.Sublist" "HOL-Library.AList"
begin

section \<open>Knowledge-graph construction and query engine (GraphRAGService)\<close>

text \<open>
  A shallow embedding of \<^verbatim>\<open>src/app/services/graphrag_service.py\<close>: the two
  deduplicators, the merge of a graph fragment into the store, the query engine and the
  summary reporter.

  Conventions of the model.
  \<^item> A Python \<^verbatim>\<open>str\<close> is a \<open>string\<close>; the model covers ASCII text, on which
    \<^verbatim>\<open>lower()\<close> maps \<open>A..Z\<close> to \<open>a..z\<close> and \<^verbatim>\<open>strip()\<close> removes the ASCII
    white space at both ends.
  \<^item> A confidence is a finite number (\<open>real\<close>); NaN is outside the model.
  \<^item> A Python \<^verbatim>\<open>dict\<close> whose iteration order is observable is an association
    list in insertion order.
  \<^item> An exception is a value \<open>Inl e\<close> of a sum type.
\<close>

subsection \<open>Strings\<close>

definition lower_char :: "char \<Rightarrow> char" where
  "lower_char c =
     (case map_of (zip ''ABCDEFGHIJKLMNOPQRSTUVWXYZ'' ''abcdefghijklmnopqrstuvwxyz'') c of
        Some d \<Rightarrow> d
      | None \<Rightarrow> c)"

definition py_lower :: "string \<Rightarrow> string" where
  "py_lower s = map lower_char s"

definition is_space :: "char \<Rightarrow> bool" where
  "is_space c = (c \<in> {CHR '' '', CHR 0x09, CHR 0x0A, CHR 0x0B, CHR 0x0C, CHR 0x0D,
                       CHR 0x1C, CHR 0x1D, CHR 0x1E, CHR 0x1F})"

definition py_strip :: "string \<Rightarrow> string" where
  "py_strip s = rev (dropWhile is_space (rev (dropWhile is_space s)))"

subsection \<open>Entities and the entity deduplicator\<close>

text \<open>
  An entity dictionary has the keys \<^verbatim>\<open>text\<close>, \<^verbatim>\<open>label\<close>, \<^verbatim>\<open>confidence\<close> and
  \<^verbatim>\<open>source\<close>; the entities of the local extractor also carry \<^verbatim>\<open>start\<close> and
  \<^verbatim>\<open>end\<close>, kept here as an optional pair.
\<close>

record entity =
  ent_text :: string
  ent_label :: string
  ent_span :: "(nat \<times> nat) option"
  ent_confidence :: real
  ent_source :: string

definition entity_key :: "entity \<Rightarrow> string" where
  "entity_key entity = py_strip (py_lower (ent_text entity))"

text \<open>The body of the \<^verbatim>\<open>if key in entity_map\<close> branch: the stored entity after the merge.\<close>

definition merge_existing :: "entity \<Rightarrow> entity \<Rightarrow> entity" where
  "merge_existing existing entity =
     (let existing1 = existing\<lparr>ent_confidence :=
                         max (ent_confidence existing) (ent_confidence entity)\<rparr>
      in if ent_source entity = ''openai''
         then existing1\<lparr>ent_label := ent_label entity\<rparr>
         else existing1)"

text \<open>
  The loop of \<^verbatim>\<open>_deduplicate_entities\<close> over \<^verbatim>\<open>entity_map\<close>, a dictionary in
  insertion order: a key that is present keeps its position, a new key goes to the end.
\<close>

fun dedup_entities_loop :: "(string \<times> entity) list \<Rightarrow> entity list \<Rightarrow> (string \<times> entity) list" where
  "dedup_entities_loop entity_map [] = entity_map"
| "dedup_entities_loop entity_map (entity # rest) =
     (let key = entity_key entity in
      case map_of entity_map key of
        Some existing \<Rightarrow>
          dedup_entities_loop (AList.update key (merge_existing existing entity) entity_map) rest
      | None \<Rightarrow> dedup_entities_loop (entity_map @ [(key, entity)]) rest)"

definition deduplicate_entities :: "entity list \<Rightarrow> entity list" where
  "deduplicate_entities entities = map snd (dedup_entities_loop [] entities)"

text \<open>
  The invariant of \<^verbatim>\<open>entity_map\<close>: every key occurs once and is the key of the entity
  stored under it.
\<close>

definition keyed :: "(string \<times> entity) list \<Rightarrow> bool" where
  "keyed entity_map =
     (distinct (map fst entity_map) \<and> list_all (\<lambda>(k, e). entity_key e = k) entity_map)"

subsection \<open>Relationships and the relationship deduplicator\<close>

text \<open>
  A relationship dictionary has the keys \<^verbatim>\<open>source\<close>, \<^verbatim>\<open>target\<close>,
  \<^verbatim>\<open>relationship\<close> and \<^verbatim>\<open>confidence\<close>; the co-occurrence relationships also carry
  \<^verbatim>\<open>context\<close>.
\<close>

record relationship =
  rel_source :: string
  rel_target :: string
  rel_relationship :: string
  rel_confidence :: real
  rel_context :: "string option"

text \<open>The key built in \<^verbatim>\<open>_deduplicate_relationships\<close>.\<close>

definition rel_key :: "relationship \<Rightarrow> string \<times> string \<times> string" where
  "rel_key rel = (py_lower (rel_source rel), py_lower (rel_target rel), rel_relationship rel)"

fun dedup_relationships_loop ::
  "(string \<times> string \<times> string) set \<Rightarrow> relationship list \<Rightarrow> relationship list \<Rightarrow> relationship list" where
  "dedup_relationships_loop seen unique_rels [] = unique_rels"
| "dedup_relationships_loop seen unique_rels (rel # rest) =
     (let key = rel_key rel in
      if key \<notin> seen
      then dedup_relationships_loop (insert key seen) (unique_rels @ [rel]) rest
      else dedup_relationships_loop seen unique_rels rest)"

definition deduplicate_relationships :: "relationship list \<Rightarrow> relationship list" where
  "deduplicate_relationships relationships = dedup_relationships_loop {} [] relationships"

text \<open>
  The two readings of the identity key of a relationship that the specification gives, for
  comparison with \<open>rel_key\<close>: the key of section 3 (source key, target key, relationship
  type, where an entity key is the lower-cased, trimmed text), and the key with all three
  components lower-cased and trimmed.
\<close>

definition rel_identity_key :: "relationship \<Rightarrow> string \<times> string \<times> string" where
  "rel_identity_key rel =
     (py_strip (py_lower (rel_source rel)), py_strip (py_lower (rel_target rel)),
      rel_relationship rel)"

definition rel_key_all_normalised :: "relationship \<Rightarrow> string \<times> string \<times> string" where
  "rel_key_all_normalised rel =
     (py_strip (py_lower (rel_source rel)), py_strip (py_lower (rel_target rel)),
      py_strip (py_lower (rel_relationship rel)))"

text \<open>
  First occurrence wins, as section 4.4 of the specification words it: the first element
  is kept and every later element with its key is dropped.
\<close>

fun first_occurrence_wins :: "('a \<Rightarrow> 'k) \<Rightarrow> 'a list \<Rightarrow> 'a list" where
  "first_occurrence_wins key [] = []"
| "first_occurrence_wins key (x # xs) =
     x # first_occurrence_wins key (filter (\<lambda>y. key y \<noteq> key x) xs)"

subsection \<open>The graph store\<close>

text \<open>
  Modelled from the spec: the graph store is a \<^verbatim>\<open>networkx.DiGraph\<close>, a library whose
  code is not under \<^verbatim>\<open>src/\<close>. Section 4.6 of the specification gives its contract: a
  directed attributed graph with node and edge upsert, membership tests and a shortest
  path by unweighted breadth-first search over the directed edges, ties broken by edge
  insertion order. Nodes and edges are kept in insertion order; an upsert of a present key
  overwrites the attributes and keeps the position. The service always passes the same
  attribute names, so the attribute dictionaries are records.
\<close>

record node_data =
  nd_label :: string
  nd_type :: string
  nd_confidence :: real
  nd_recording_id :: int

record edge_data =
  ed_relationship :: string
  ed_confidence :: real
  ed_recording_id :: int

record digraph =
  g_nodes :: "(string \<times> node_data) list"
  g_edges :: "((string \<times> string) \<times> edge_data) list"

definition empty_graph :: digraph where
  "empty_graph = \<lparr>g_nodes = [], g_edges = []\<rparr>"

definition has_node :: "digraph \<Rightarrow> string \<Rightarrow> bool" where
  "has_node g n = (n \<in> fst ` set (g_nodes g))"

definition has_edge :: "digraph \<Rightarrow> string \<Rightarrow> string \<Rightarrow> bool" where
  "has_edge g u v = ((u, v) \<in> fst ` set (g_edges g))"

definition add_node :: "digraph \<Rightarrow> string \<Rightarrow> node_data \<Rightarrow> digraph" where
  "add_node g n d = g\<lparr>g_nodes := AList.update n d (g_nodes g)\<rparr>"

text \<open>
  The library's \<^verbatim>\<open>add_edge\<close> would also create a missing endpoint as a node without
  attributes; its only call in the service is guarded by \<^verbatim>\<open>has_node\<close> on both
  endpoints, so the model is the edge upsert alone.
\<close>

definition add_edge :: "digraph \<Rightarrow> string \<Rightarrow> string \<Rightarrow> edge_data \<Rightarrow> digraph" where
  "add_edge g u v d = g\<lparr>g_edges := AList.update (u, v) d (g_edges g)\<rparr>"

definition number_of_nodes :: "digraph \<Rightarrow> nat" where
  "number_of_nodes g = length (g_nodes g)"

definition number_of_edges :: "digraph \<Rightarrow> nat" where
  "number_of_edges g = length (g_edges g)"

text \<open>\<^verbatim>\<open>edges(data=True)\<close> lists the out-edges node by node, in node order.\<close>

definition edges_data :: "digraph \<Rightarrow> ((string \<times> string) \<times> edge_data) list" where
  "edges_data g =
     concat (map (\<lambda>(u, _). filter (\<lambda>((a, _), _). a = u) (g_edges g)) (g_nodes g))"

definition successors :: "digraph \<Rightarrow> string \<Rightarrow> string list" where
  "successors g u = map (\<lambda>((_, b), _). b) (filter (\<lambda>((a, _), _). a = u) (g_edges g))"

datatype py_error = NodeNotFound | NetworkXNoPath | OtherException string

text \<open>
  Modelled from the spec: breadth-first search from the source over the directed edges.
  The queue holds the paths found so far, each with its last node first; a node is marked
  when it enters the queue.
\<close>

function bfs :: "digraph \<Rightarrow> string \<Rightarrow> string list \<Rightarrow> string list list \<Rightarrow> string list option" where
  "bfs g target seen [] = None"
| "bfs g target seen ([] # queue) = bfs g target seen queue"
| "bfs g target seen ((u # path) # queue) =
     (if u = target then Some (rev (u # path))
      else let new = filter (\<lambda>v. v \<notin> set seen) (successors g u)
           in bfs g target (seen @ new) (queue @ map (\<lambda>v. v # u # path) new))"
  by pat_completeness auto

text \<open>
  Every step either marks a target of an edge that was not marked before, or shortens the
  queue and marks nothing.
\<close>

termination bfs
proof (relation "measures [\<lambda>(g, t, seen, q). card (snd ` fst ` set (g_edges g) - set seen),
                           \<lambda>(g, t, seen, q). length q]", goal_cases)
  case 1
  then show ?case by simp
next
  case (2 g target seen queue)
  then show ?case by simp
next
  case (3 g target seen u path queue new)
  show ?case
  proof (cases "new = []")
    case True
    then show ?thesis by simp
  next
    case False
    then obtain v where v: "v \<in> set new" by (cases new) auto
    have "set (successors g u) \<subseteq> snd ` fst ` set (g_edges g)"
      by (force simp: successors_def)
    with v 3 have "v \<notin> set seen" "v \<in> snd ` fst ` set (g_edges g)" by auto
    with v have "snd ` fst ` set (g_edges g) - set (seen @ new)
                 \<subset> snd ` fst ` set (g_edges g) - set seen"
      by auto
    then have "card (snd ` fst ` set (g_edges g) - set (seen @ new))
               < card (snd ` fst ` set (g_edges g) - set seen)"
      by (intro psubset_card_mono) simp_all
    then show ?thesis by simp
  qed
qed

text \<open>
  Modelled from the spec: \<^verbatim>\<open>shortest_path(a, b)\<close> gives the sequence of node ids or
  NoPath; the library raises \<^verbatim>\<open>NodeNotFound\<close> for an endpoint that is not a node.
\<close>

definition shortest_path :: "digraph \<Rightarrow> string \<Rightarrow> string \<Rightarrow> py_error + string list" where
  "shortest_path g source target =
     (if has_node g source \<and> has_node g target
      then (case bfs g target [source] [[source]] of
              None \<Rightarrow> Inl NetworkXNoPath
            | Some path \<Rightarrow> Inr path)
      else Inl NodeNotFound)"

subsection \<open>Merging a graph fragment into the store\<close>

text \<open>The dictionaries of \<^verbatim>\<open>graph_data\<close>, as \<^verbatim>\<open>_build_graph_structure\<close> makes them.\<close>

record graph_node =
  gn_id :: string
  gn_label :: string
  gn_type :: string
  gn_confidence :: real
  gn_recording_id :: int
  gn_full_text :: "string option"

record graph_edge =
  ge_source :: string
  ge_target :: string
  ge_relationship :: string
  ge_confidence :: real
  ge_recording_id :: int

record graph_data =
  gd_nodes :: "graph_node list"
  gd_edges :: "graph_edge list"
  gd_recording_id :: int

text \<open>The bodies of the two loops of \<^verbatim>\<open>_add_to_networkx_graph\<close>.\<close>

definition add_fragment_node :: "int \<Rightarrow> digraph \<Rightarrow> graph_node \<Rightarrow> digraph" where
  "add_fragment_node recording_id g node =
     add_node g (gn_id node)
       \<lparr>nd_label = gn_label node, nd_type = gn_type node,
        nd_confidence = gn_confidence node, nd_recording_id = recording_id\<rparr>"

definition add_fragment_edge :: "int \<Rightarrow> digraph \<Rightarrow> graph_edge \<Rightarrow> digraph" where
  "add_fragment_edge recording_id g edge =
     (if has_node g (ge_source edge) \<and> has_node g (ge_target edge)
      then add_edge g (ge_source edge) (ge_target edge)
             \<lparr>ed_relationship = ge_relationship edge, ed_confidence = ge_confidence edge,
              ed_recording_id = recording_id\<rparr>
      else g)"

definition add_to_networkx_graph :: "int \<Rightarrow> graph_data \<Rightarrow> digraph \<Rightarrow> digraph" where
  "add_to_networkx_graph recording_id graph_data g =
     foldl (add_fragment_edge recording_id)
       (foldl (add_fragment_node recording_id) g (gd_nodes graph_data))
       (gd_edges graph_data)"

text \<open>No edge of the store names a node that the store does not hold.\<close>

definition edges_closed :: "digraph \<Rightarrow> bool" where
  "edges_closed g =
     list_all (\<lambda>((u, v), _). has_node g u \<and> has_node g v) (g_edges g)"

subsection \<open>Entity extraction\<close>

text \<open>
  \<^verbatim>\<open>_extract_entities\<close> calls two collaborators, whose outcomes are parameters here:
  \<open>nlp_doc\<close> is the outcome of \<^verbatim>\<open>self.nlp(text)\<close>, with \<open>Inr []\<close> when no local model
  is loaded and \<open>Inl e\<close> when the call raises (it is not inside a \<^verbatim>\<open>try\<close>);
  \<open>enhanced_entities\<close> is what \<^verbatim>\<open>_extract_entities_with_openai\<close> returns, which
  catches its own exceptions and then returns the empty list.
\<close>

record spacy_ent =
  sp_text :: string
  sp_label :: string
  sp_start_char :: nat
  sp_end_char :: nat

definition extract_entities :: "py_error + spacy_ent list \<Rightarrow> entity list \<Rightarrow> py_error + entity list" where
  "extract_entities nlp_doc enhanced_entities =
     (case nlp_doc of
        Inl e \<Rightarrow> Inl e
      | Inr ents \<Rightarrow>
          Inr (deduplicate_entities
                 (map (\<lambda>ent. \<lparr>ent_text = sp_text ent, ent_label = sp_label ent,
                                ent_span = Some (sp_start_char ent, sp_end_char ent),
                                ent_confidence = 1, ent_source = ''spacy''\<rparr>) ents
                  @ enhanced_entities)))"

subsection \<open>The query engine\<close>

record relevant_node =
  rn_id :: string
  rn_label :: string
  rn_type :: string
  rn_confidence :: real

record related_concept =
  rc_concept :: string
  rc_type :: string
  rc_connection :: string

record stats =
  total_nodes :: nat
  total_edges :: nat

text \<open>The result dictionary; \<open>graph_stats\<close> is \<open>None\<close> when the key is absent.\<close>

record query_result =
  relevant_nodes :: "relevant_node list"
  paths :: "string list list"
  related_concepts :: "related_concept list"
  graph_stats :: "stats option"

text \<open>
  The test \<^verbatim>\<open>recording_id and node_data.get("recording_id") != recording_id\<close> that
  skips a node: \<^verbatim>\<open>None\<close> and \<open>0\<close> are falsy.
\<close>

definition out_of_scope :: "int option \<Rightarrow> int \<Rightarrow> bool" where
  "out_of_scope recording_id node_recording_id =
     (case recording_id of
        None \<Rightarrow> False
      | Some r \<Rightarrow> r \<noteq> 0 \<and> node_recording_id \<noteq> r)"

definition label_matches :: "string list \<Rightarrow> string \<Rightarrow> bool" where
  "label_matches query_terms node_label =
     (list_ex (\<lambda>term. sublist term node_label) query_terms
      \<or> list_ex (\<lambda>term. sublist node_label term) query_terms)"

definition find_relevant_nodes :: "digraph \<Rightarrow> string list \<Rightarrow> int option \<Rightarrow> relevant_node list" where
  "find_relevant_nodes g query_terms recording_id =
     map (\<lambda>(node_id, node_data).
            \<lparr>rn_id = node_id, rn_label = nd_label node_data, rn_type = nd_type node_data,
             rn_confidence = nd_confidence node_data\<rparr>)
       (filter (\<lambda>(node_id, node_data).
                  \<not> out_of_scope recording_id (nd_recording_id node_data)
                  \<and> label_matches query_terms (py_lower (nd_label node_data)))
          (g_nodes g))"

text \<open>The pairs \<open>(xs[i], xs[j])\<close> with \<open>i < j\<close>, in the order of the two nested loops.\<close>

fun index_pairs :: "'a list \<Rightarrow> ('a \<times> 'a) list" where
  "index_pairs [] = []"
| "index_pairs (x # xs) = map (Pair x) xs @ index_pairs xs"

text \<open>
  The inner \<^verbatim>\<open>try\<close>: \<^verbatim>\<open>NetworkXNoPath\<close> is caught and the pair skipped; any other
  exception leaves the loops.
\<close>

fun find_paths :: "digraph \<Rightarrow> (string \<times> string) list \<Rightarrow> py_error + string list list" where
  "find_paths g [] = Inr []"
| "find_paths g ((a, b) # rest) =
     (case shortest_path g a b of
        Inr path \<Rightarrow> (case find_paths g rest of Inl e \<Rightarrow> Inl e | Inr ps \<Rightarrow> Inr (path # ps))
      | Inl NetworkXNoPath \<Rightarrow> find_paths g rest
      | Inl e \<Rightarrow> Inl e)"

definition get_related_concepts :: "digraph \<Rightarrow> string list \<Rightarrow> related_concept list" where
  "get_related_concepts g query_terms =
     map (\<lambda>(node_id, node_data).
            \<lparr>rc_concept = nd_label node_data, rc_type = nd_type node_data,
             rc_connection = ''direct''\<rparr>)
       (filter (\<lambda>(node_id, node_data).
                  list_ex (\<lambda>term. has_node g term
                                    \<and> (has_edge g term node_id \<or> has_edge g node_id term))
                    query_terms)
          (g_nodes g))"

text \<open>The body of the outer \<^verbatim>\<open>try\<close> of \<^verbatim>\<open>query_knowledge_graph\<close>.\<close>

definition query_body ::
  "digraph \<Rightarrow> py_error + spacy_ent list \<Rightarrow> entity list \<Rightarrow> int option \<Rightarrow> py_error + query_result" where
  "query_body g nlp_doc enhanced_entities recording_id =
     (case extract_entities nlp_doc enhanced_entities of
        Inl e \<Rightarrow> Inl e
      | Inr query_entities \<Rightarrow>
          (let query_terms = map (\<lambda>e. py_lower (ent_text e)) query_entities;
               relevant = find_relevant_nodes g query_terms recording_id
           in case (if length relevant > 1
                    then find_paths g (index_pairs (map rn_id relevant))
                    else Inr []) of
                Inl e \<Rightarrow> Inl e
              | Inr found \<Rightarrow>
                  Inr \<lparr>relevant_nodes = take 10 relevant,
                       paths = take 5 found,
                       related_concepts = take 10 (get_related_concepts g query_terms),
                       graph_stats = Some \<lparr>total_nodes = number_of_nodes g,
                                            total_edges = number_of_edges g\<rparr>\<rparr>))"

text \<open>The whole method: the \<^verbatim>\<open>except Exception\<close> clause returns a literal dictionary.\<close>

definition query_knowledge_graph ::
  "digraph \<Rightarrow> py_error + spacy_ent list \<Rightarrow> entity list \<Rightarrow> int option \<Rightarrow> query_result" where
  "query_knowledge_graph g nlp_doc enhanced_entities recording_id =
     (case query_body g nlp_doc enhanced_entities recording_id of
        Inr result \<Rightarrow> result
      | Inl e \<Rightarrow> \<lparr>relevant_nodes = [], paths = [], related_concepts = [], graph_stats = None\<rparr>)"

subsection \<open>The summary reporter\<close>

text \<open>\<^verbatim>\<open>Counter\<close> over a list, as a dictionary in the order of first occurrence.\<close>

definition counter :: "string list \<Rightarrow> (string \<times> nat) list" where
  "counter xs =
     foldl (\<lambda>m x. AList.update x (case map_of m x of None \<Rightarrow> 1 | Some c \<Rightarrow> c + 1) m) [] xs"

record graph_summary =
  total_entities :: nat
  total_relationships :: nat
  entity_types :: "(string \<times> nat) list"
  relationship_types :: "(string \<times> nat) list"
  recordings_covered :: nat

text \<open>The node list and the edge list that \<^verbatim>\<open>get_graph_summary\<close> aggregates.\<close>

definition summary_nodes :: "digraph \<Rightarrow> int option \<Rightarrow> (string \<times> node_data) list" where
  "summary_nodes g recording_id =
     (case recording_id of
        None \<Rightarrow> g_nodes g
      | Some r \<Rightarrow>
          if r \<noteq> 0 then filter (\<lambda>(n, d). nd_recording_id d = r) (g_nodes g)
          else g_nodes g)"

definition summary_edges :: "digraph \<Rightarrow> int option \<Rightarrow> ((string \<times> string) \<times> edge_data) list" where
  "summary_edges g recording_id =
     (case recording_id of
        None \<Rightarrow> edges_data g
      | Some r \<Rightarrow>
          if r \<noteq> 0 then filter (\<lambda>(uv, d). ed_recording_id d = r) (edges_data g)
          else edges_data g)"

definition get_graph_summary :: "digraph \<Rightarrow> int option \<Rightarrow> graph_summary" where
  "get_graph_summary g recording_id =
     (let nodes = summary_nodes g recording_id;
          edges = summary_edges g recording_id
      in \<lparr>total_entities = length nodes,
          total_relationships = length edges,
          entity_types = counter (map (\<lambda>(n, d). nd_type d) nodes),
          relationship_types = counter (map (\<lambda>(uv, d). ed_relationship d) edges),
          recordings_covered =
            card (set (map (\<lambda>(n, d). nd_recording_id d)
                         (filter (\<lambda>(n, d). nd_recording_id d \<noteq> 0) nodes)))\<rparr>)"

subsection \<open>Example data\<close>

text \<open>The entities of the label-precedence example of the specification.\<close>

definition ex_local :: entity where
  "ex_local = \<lparr>ent_text = ''Foo'', ent_label = ''ORG'', ent_span = Some (0, 3),
               ent_confidence = 0.3, ent_source = ''spacy''\<rparr>"

definition ex_remote :: entity where
  "ex_remote = \<lparr>ent_text = '' foo '', ent_label = ''CONCEPT'', ent_span = None,
                ent_confidence = 0.9, ent_source = ''openai''\<rparr>"

definition ex_rel :: "string \<Rightarrow> string \<Rightarrow> string \<Rightarrow> relationship" where
  "ex_rel s t r = \<lparr>rel_source = s, rel_target = t, rel_relationship = r,
                   rel_confidence = 0.7, rel_context = None\<rparr>"

definition ex_rels :: "relationship list" where
  "ex_rels = [ex_rel ''Ada'' ''Graph'' ''discusses'', ex_rel ''ADA'' ''graph'' ''discusses'',
              ex_rel ''Ada'' ''Graph'' ''depends_on'', ex_rel ''Graph'' ''Ada'' ''discusses'']"

text \<open>The store of the path example: nodes A, B, C and the edges from A to B and from B to C;
  and a fragment whose edges name nodes that were never inserted.\<close>

definition ex_node :: "string \<Rightarrow> string \<Rightarrow> graph_node" where
  "ex_node i t = \<lparr>gn_id = i, gn_label = i, gn_type = t, gn_confidence = 1,
                  gn_recording_id = 1, gn_full_text = None\<rparr>"

definition ex_edge :: "string \<Rightarrow> string \<Rightarrow> string \<Rightarrow> graph_edge" where
  "ex_edge s t r = \<lparr>ge_source = s, ge_target = t, ge_relationship = r, ge_confidence = 0.7,
                    ge_recording_id = 1\<rparr>"

definition abc_fragment :: graph_data where
  "abc_fragment =
     \<lparr>gd_nodes = [ex_node ''A'' ''CONCEPT'', ex_node ''B'' ''CONCEPT'', ex_node ''C'' ''CONCEPT''],
      gd_edges = [ex_edge ''A'' ''B'' ''leads'', ex_edge ''B'' ''C'' ''leads''],
      gd_recording_id = 1\<rparr>"

definition abc_store :: digraph where
  "abc_store = add_to_networkx_graph 1 abc_fragment empty_graph"

definition dangling_fragment :: graph_data where
  "dangling_fragment =
     \<lparr>gd_nodes = [], gd_edges = [ex_edge ''A'' ''Z'' ''leads'', ex_edge ''Y'' ''Z'' ''leads''],
      gd_recording_id = 2\<rparr>"

text \<open>A store whose only node carries the placeholder recording id 0.\<close>

definition placeholder_store :: digraph where
  "placeholder_store =
     add_to_networkx_graph 0
       \<lparr>gd_nodes = [ex_node ''Budget'' ''CONCEPT''], gd_edges = [], gd_recording_id = 0\<rparr>
       empty_graph"

text \<open>A store with twelve nodes that all match the query term \<open>n\<close>, and one edge between
  the last two; and the query entities of the examples.\<close>

definition twelve_fragment :: graph_data where
  "twelve_fragment =
     \<lparr>gd_nodes = map (\<lambda>i. ex_node i ''CONCEPT'')
                   [''n01'', ''n02'', ''n03'', ''n04'', ''n05'', ''n06'',
                    ''n07'', ''n08'', ''n09'', ''n10'', ''n11'', ''n12''],
      gd_edges = [ex_edge ''n11'' ''n12'' ''leads''],
      gd_recording_id = 1\<rparr>"

definition twelve_store :: digraph where
  "twelve_store = add_to_networkx_graph 1 twelve_fragment empty_graph"

definition ex_query_entity :: entity where
  "ex_query_entity = \<lparr>ent_text = ''N'', ent_label = ''CONCEPT'', ent_span = None,
                      ent_confidence = 0.5, ent_source = ''openai''\<rparr>"

definition abc_query_entity :: entity where
  "abc_query_entity = \<lparr>ent_text = ''ABC'', ent_label = ''CONCEPT'', ent_span = None,
                       ent_confidence = 0.5, ent_source = ''openai''\<rparr>"

section \<open>Properties\<close>

lemmas string_eval = py_lower_def py_strip_def lower_char_def is_space_def

subsection \<open>The entity deduplicator\<close>

lemma merge_existing_text [simp]: "ent_text (merge_existing existing entity) = ent_text existing"
  by (simp add: merge_existing_def Let_def)

lemma merge_existing_key [simp]: "entity_key (merge_existing existing entity) = entity_key existing"
  by (simp add: entity_key_def)

lemma merge_existing_confidence [simp]:
  "ent_confidence (merge_existing existing entity) = max (ent_confidence existing) (ent_confidence entity)"
  by (simp add: merge_existing_def Let_def)

lemma merge_existing_label [simp]:
  "ent_label (merge_existing existing entity) =
     (if ent_source entity = ''openai'' then ent_label entity else ent_label existing)"
  by (simp add: merge_existing_def Let_def)

lemma list_all_update:
  "list_all (\<lambda>(k, e). entity_key e = k) m \<Longrightarrow> entity_key e = k \<Longrightarrow>
   list_all (\<lambda>(k, e). entity_key e = k) (AList.update k e m)"
  by (induction m) auto

lemma keyed_update:
  "keyed m \<Longrightarrow> entity_key e = k \<Longrightarrow> keyed (AList.update k e m)"
  unfolding keyed_def by (simp add: AList.distinct_update list_all_update)

lemma keyed_loop: "keyed m \<Longrightarrow> keyed (dedup_entities_loop m xs)"
proof (induction xs arbitrary: m)
  case Nil
  then show ?case by simp
next
  case (Cons x xs)
  show ?case
  proof (cases "map_of m (entity_key x)")
    case None
    then have "entity_key x \<notin> fst ` set m" by (simp add: map_of_eq_None_iff)
    with Cons.prems have "keyed (m @ [(entity_key x, x)])"
      by (auto simp: keyed_def)
    with None Cons.IH show ?thesis by simp
  next
    case (Some ex)
    then have "(entity_key x, ex) \<in> set m" by (rule map_of_SomeD)
    with Cons.prems have "entity_key ex = entity_key x"
      by (auto simp: keyed_def list_all_iff)
    then have "keyed (AList.update (entity_key x) (merge_existing ex x) m)"
      using Cons.prems by (intro keyed_update) simp_all
    with Some Cons.IH show ?thesis by simp
  qed
qed

lemma loop_on_keyed:
  "keyed d \<Longrightarrow> fst ` set d \<inter> fst ` set m = {} \<Longrightarrow>
   dedup_entities_loop m (map snd d) = m @ d"
proof (induction d arbitrary: m)
  case Nil
  then show ?case by simp
next
  case (Cons p d)
  obtain k e where p: "p = (k, e)" by (cases p)
  from Cons.prems p have key: "entity_key e = k" and kd: "keyed d" and fresh: "k \<notin> fst ` set d"
    by (auto simp: keyed_def)
  from Cons.prems p have "k \<notin> fst ` set m" by auto
  then have none: "map_of m k = None" by (simp add: map_of_eq_None_iff)
  from Cons.prems p fresh have "fst ` set d \<inter> fst ` set (m @ [(k, e)]) = {}" by auto
  from Cons.IH [OF kd this] show ?case using p key none by simp
qed

lemma deduplicate_entities_idem: "deduplicate_entities (deduplicate_entities xs) = deduplicate_entities xs"
proof -
  have "keyed (dedup_entities_loop [] xs)" by (rule keyed_loop) (simp add: keyed_def)
  then have "dedup_entities_loop [] (map snd (dedup_entities_loop [] xs)) = [] @ dedup_entities_loop [] xs"
    by (rule loop_on_keyed) simp
  then show ?thesis by (simp add: deduplicate_entities_def)
qed

lemma dedup_entities_loop_append:
  "dedup_entities_loop m (xs @ ys) = dedup_entities_loop (dedup_entities_loop m xs) ys"
  by (induction xs arbitrary: m) (auto simp: Let_def split: option.splits)

lemma keys_dedup_entities_loop:
  "fst ` set (dedup_entities_loop m xs) = fst ` set m \<union> entity_key ` set xs"
proof (induction xs arbitrary: m)
  case Nil
  then show ?case by simp
next
  case (Cons x xs)
  show ?case
  proof (cases "map_of m (entity_key x)")
    case None
    with Cons.IH [of "m @ [(entity_key x, x)]"] show ?thesis by auto
  next
    case (Some ex)
    then have "(entity_key x, ex) \<in> set m" by (rule map_of_SomeD)
    then have "entity_key x \<in> fst ` set m" by force
    then have "fst ` set (AList.update (entity_key x) (merge_existing ex x) m) = fst ` set m"
      by (auto simp: AList.dom_update)
    with Some Cons.IH [of "AList.update (entity_key x) (merge_existing ex x) m"]
    show ?thesis using \<open>entity_key x \<in> fst ` set m\<close> by auto
  qed
qed

lemma labels_update_same:
  "map_of m k = Some ex \<Longrightarrow> ent_label e = ent_label ex \<Longrightarrow>
   map ent_label (map snd (AList.update k e m)) = map ent_label (map snd m)"
  by (induction m) (auto split: if_splits)

lemma Max_insert_max:
  fixes a b :: "'a::linorder"
  shows "finite S \<Longrightarrow> Max (insert (max a b) S) = Max (insert a (insert b S))"
  by (cases "S = {}") (simp_all add: max.assoc)

lemma confidence_of_present_key:
  "map_of m k = Some e0 \<Longrightarrow>
   \<exists>e. map_of (dedup_entities_loop m xs) k = Some e
       \<and> ent_confidence e
           = Max (insert (ent_confidence e0) (ent_confidence ` {x \<in> set xs. entity_key x = k}))"
proof (induction xs arbitrary: m e0)
  case Nil
  then show ?case by simp
next
  case (Cons x xs)
  show ?case
  proof (cases "entity_key x = k")
    case True
    let ?m = "AList.update k (merge_existing e0 x) m"
    have "map_of ?m k = Some (merge_existing e0 x)" by (simp add: AList.update_conv')
    from Cons.IH [OF this] obtain e where e: "map_of (dedup_entities_loop ?m xs) k = Some e"
      "ent_confidence e = Max (insert (max (ent_confidence e0) (ent_confidence x))
                                 (ent_confidence ` {x \<in> set xs. entity_key x = k}))"
      by auto
    have set_eq: "{y \<in> set (x # xs). entity_key y = k} = insert x {y \<in> set xs. entity_key y = k}"
      using True by auto
    have fin: "finite (ent_confidence ` {y \<in> set xs. entity_key y = k})" by simp
    have "Max (insert (max (ent_confidence e0) (ent_confidence x))
                 (ent_confidence ` {x \<in> set xs. entity_key x = k}))
          = Max (insert (ent_confidence e0) (ent_confidence ` {y \<in> set (x # xs). entity_key y = k}))"
      unfolding set_eq image_insert by (rule Max_insert_max [OF fin])
    with e True Cons.prems show ?thesis by simp
  next
    case False
    have set_eq: "{y \<in> set (x # xs). entity_key y = k} = {y \<in> set xs. entity_key y = k}"
      using False by auto
    show ?thesis
    proof (cases "map_of m (entity_key x)")
      case None
      from Cons.prems have "map_of (m @ [(entity_key x, x)]) k = Some e0" by (simp add: map_add_def)
      from Cons.IH [OF this] None show ?thesis unfolding set_eq by simp
    next
      case (Some ex)
      from Cons.prems False
      have "map_of (AList.update (entity_key x) (merge_existing ex x) m) k = Some e0"
        by (simp add: AList.update_conv')
      from Cons.IH [OF this] Some show ?thesis unfolding set_eq by simp
    qed
  qed
qed

lemma confidence_of_new_key:
  "map_of m k = None \<Longrightarrow> k \<in> entity_key ` set xs \<Longrightarrow>
   \<exists>e. map_of (dedup_entities_loop m xs) k = Some e
       \<and> ent_confidence e = Max (ent_confidence ` {x \<in> set xs. entity_key x = k})"
proof (induction xs arbitrary: m)
  case Nil
  then show ?case by simp
next
  case (Cons x xs)
  show ?case
  proof (cases "entity_key x = k")
    case True
    have set_eq: "{y \<in> set (x # xs). entity_key y = k} = insert x {y \<in> set xs. entity_key y = k}"
      using True by auto
    from Cons.prems(1) have "map_of (m @ [(k, x)]) k = Some x" by (simp add: map_add_def)
    from confidence_of_present_key [OF this, of xs] Cons.prems(1) True
    show ?thesis unfolding set_eq by simp
  next
    case False
    have set_eq: "{y \<in> set (x # xs). entity_key y = k} = {y \<in> set xs. entity_key y = k}"
      using False by auto
    from False Cons.prems(2) have k: "k \<in> entity_key ` set xs" by auto
    show ?thesis
    proof (cases "map_of m (entity_key x)")
      case None
      from Cons.prems(1) False have "map_of (m @ [(entity_key x, x)]) k = None" by (simp add: map_add_def)
      from Cons.IH [OF this k] None show ?thesis unfolding set_eq by simp
    next
      case (Some ex)
      from Cons.prems(1) False
      have "map_of (AList.update (entity_key x) (merge_existing ex x) m) k = None"
        by (simp add: AList.update_conv')
      from Cons.IH [OF this k] Some show ?thesis unfolding set_eq by simp
    qed
  qed
qed

lemma deduplicate_entities_confidence_Max:
  assumes "e \<in> set (deduplicate_entities es)"
  shows "ent_confidence e = Max (ent_confidence ` {x \<in> set es. entity_key x = entity_key e})"
proof -
  let ?d = "dedup_entities_loop [] es"
  have keyed: "keyed ?d" by (rule keyed_loop) (simp add: keyed_def)
  from assms obtain k where ke: "(k, e) \<in> set ?d" by (auto simp: deduplicate_entities_def)
  with keyed have k: "k = entity_key e" by (auto simp: keyed_def list_all_iff)
  from keyed ke have m: "map_of ?d k = Some e" by (simp add: keyed_def)
  from ke have "k \<in> fst ` set ?d" by force
  then have "k \<in> entity_key ` set es" by (simp add: keys_dedup_entities_loop)
  from confidence_of_new_key [OF _ this, of "[]"] m k show ?thesis by simp
qed

subsection \<open>The relationship deduplicator\<close>

lemma set_first_occurrence_wins: "set (first_occurrence_wins key xs) \<subseteq> set xs"
  by (induction key xs rule: first_occurrence_wins.induct) auto

lemma keys_first_occurrence_wins: "key ` set (first_occurrence_wins key xs) = key ` set xs"
  by (induction key xs rule: first_occurrence_wins.induct) auto

lemma distinct_first_occurrence_wins: "distinct (map key (first_occurrence_wins key xs))"
proof (induction key xs rule: first_occurrence_wins.induct)
  case (1 key)
  then show ?case by simp
next
  case (2 key x xs)
  have "key x \<notin> key ` set (first_occurrence_wins key (filter (\<lambda>y. key y \<noteq> key x) xs))"
    using set_first_occurrence_wins [of key "filter (\<lambda>y. key y \<noteq> key x) xs"] by auto
  with 2 show ?case by simp
qed

lemma first_occurrence_wins_distinct: "distinct (map key xs) \<Longrightarrow> first_occurrence_wins key xs = xs"
proof (induction xs)
  case Nil
  then show ?case by simp
next
  case (Cons x xs)
  then have "filter (\<lambda>y. key y \<noteq> key x) xs = xs"
    by (intro filter_True) (auto simp: image_iff)
  with Cons show ?case by simp
qed

lemma first_occurrence_wins_cong:
  "(\<And>x. x \<in> set xs \<Longrightarrow> f x = g x) \<Longrightarrow> first_occurrence_wins f xs = first_occurrence_wins g xs"
proof (induction f xs rule: first_occurrence_wins.induct)
  case (1 key)
  then show ?case by simp
next
  case (2 key x xs)
  have "filter (\<lambda>y. key y \<noteq> key x) xs = filter (\<lambda>y. g y \<noteq> g x) xs"
    using "2.prems" by (intro filter_cong) auto
  then show ?case using 2 by auto
qed

lemma dedup_relationships_loop_eq:
  "dedup_relationships_loop seen unique_rels rs =
     unique_rels @ first_occurrence_wins rel_key (filter (\<lambda>r. rel_key r \<notin> seen) rs)"
proof (induction rs arbitrary: seen unique_rels)
  case Nil
  then show ?case by simp
next
  case (Cons r rs)
  have "filter (\<lambda>x. rel_key x \<notin> insert (rel_key r) seen) rs =
        filter (\<lambda>y. rel_key y \<noteq> rel_key r) (filter (\<lambda>r. rel_key r \<notin> seen) rs)"
    by (auto intro: filter_cong)
  with Cons show ?case by simp
qed

lemma deduplicate_relationships_eq:
  "deduplicate_relationships rs = first_occurrence_wins rel_key rs"
  by (simp add: deduplicate_relationships_def dedup_relationships_loop_eq)

lemma deduplicate_relationships_idem:
  "deduplicate_relationships (deduplicate_relationships rs) = deduplicate_relationships rs"
  by (simp add: deduplicate_relationships_eq first_occurrence_wins_distinct distinct_first_occurrence_wins)

lemma is_space_lower_char: "is_space (lower_char c) = is_space c"
  by (auto simp: lower_char_def is_space_def split: option.splits if_splits)

lemma py_strip_py_lower: "py_strip (py_lower s) = py_lower (py_strip s)"
proof -
  have comp: "is_space \<circ> lower_char = is_space" by (rule ext) (simp add: is_space_lower_char)
  have drop: "dropWhile is_space (map lower_char xs) = map lower_char (dropWhile is_space xs)" for xs
    by (simp add: dropWhile_map comp)
  have "rev (map lower_char (dropWhile is_space s)) = map lower_char (rev (dropWhile is_space s))"
    by (simp add: rev_map)
  then show ?thesis
    unfolding py_strip_def py_lower_def by (simp only: drop rev_map)
qed

lemma rel_identity_key_trimmed:
  "py_strip (rel_source r) = rel_source r \<Longrightarrow> py_strip (rel_target r) = rel_target r \<Longrightarrow>
   rel_identity_key r = rel_key r"
  by (simp add: rel_identity_key_def rel_key_def py_strip_py_lower)


subsection \<open>Idempotence of the deduplicators\<close>

text \<open>
  Claim C4. Both deduplicators are idempotent: deduplicating the output of the entity
  deduplicator gives that output again, for every entity list, and deduplicating the output
  of the relationship deduplicator gives that output again, for every relationship list.
\<close>

theorem deduplicators_idempotent:
  "deduplicate_entities (deduplicate_entities es) = deduplicate_entities es
   \<and> deduplicate_relationships (deduplicate_relationships rs) = deduplicate_relationships rs"
  by (simp add: deduplicate_entities_idem deduplicate_relationships_idem)

subsection \<open>Confidence merge\<close>

lemma ex_keys: "entity_key ex_local = ''foo''" "entity_key ex_remote = ''foo''"
  by (simp_all add: entity_key_def ex_local_def ex_remote_def string_eval)

text \<open>
  Claim C5. Entity deduplication merges confidence by maximum, whatever the arrival order:
  for two entities with the same identity key, the deduplicated list holds one entity, and
  its confidence is the larger of the two confidences, whichever entity comes first.
  (\<open>deduplicate_entities_confidence_Max\<close> above is the same fact for a list of any
  length.)
\<close>

theorem confidence_merged_by_max:
  assumes "entity_key e1 = entity_key e2"
  shows "map ent_confidence (deduplicate_entities [e1, e2]) = [max (ent_confidence e1) (ent_confidence e2)]
         \<and> map ent_confidence (deduplicate_entities [e2, e1]) = [max (ent_confidence e1) (ent_confidence e2)]"
  using assms by (simp add: deduplicate_entities_def max.commute)

theorem confidence_merged_by_max_witness:
  "entity_key ex_local = entity_key ex_remote
   \<and> map ent_confidence (deduplicate_entities [ex_local, ex_remote]) = [0.9]
   \<and> map ent_confidence (deduplicate_entities [ex_remote, ex_local]) = [0.9]"
proof -
  have h: "entity_key ex_local = entity_key ex_remote" by (simp add: ex_keys)
  have "max (ent_confidence ex_local) (ent_confidence ex_remote) = 0.9"
    by (simp add: ex_local_def ex_remote_def)
  with h confidence_merged_by_max [OF h] show ?thesis by simp
qed

subsection \<open>Label precedence\<close>

text \<open>
  Claim C6. Remote labels are authoritative: for a local entity (its source is not
  \<^verbatim>\<open>openai\<close>) and a remote entity (its source is \<^verbatim>\<open>openai\<close>) with the same
  identity key, the deduplicated entity carries the remote label in either arrival order;
  and a local entity that collides with a key already present leaves every label as it was.
\<close>

theorem remote_label_authoritative:
  assumes "entity_key loc = entity_key rem" "ent_source loc \<noteq> ''openai''" "ent_source rem = ''openai''"
  shows "map ent_label (deduplicate_entities [loc, rem]) = [ent_label rem]
         \<and> map ent_label (deduplicate_entities [rem, loc]) = [ent_label rem]
         \<and> (entity_key loc \<in> entity_key ` set es \<longrightarrow>
              map ent_label (deduplicate_entities (es @ [loc])) = map ent_label (deduplicate_entities es))"
proof -
  have 1: "map ent_label (deduplicate_entities [loc, rem]) = [ent_label rem]"
    using assms by (simp add: deduplicate_entities_def)
  have 2: "map ent_label (deduplicate_entities [rem, loc]) = [ent_label rem]"
    using assms by (simp add: deduplicate_entities_def)
  have 3: "map ent_label (deduplicate_entities (es @ [loc])) = map ent_label (deduplicate_entities es)"
    if "entity_key loc \<in> entity_key ` set es"
  proof -
    let ?d = "dedup_entities_loop [] es"
    from that have "entity_key loc \<in> fst ` set ?d" by (simp add: keys_dedup_entities_loop)
    then obtain ex where ex: "map_of ?d (entity_key loc) = Some ex"
      by (cases "map_of ?d (entity_key loc)") (auto simp: map_of_eq_None_iff)
    have "ent_label (merge_existing ex loc) = ent_label ex" using assms(2) by simp
    from labels_update_same [OF ex this] ex show ?thesis
      by (simp add: deduplicate_entities_def dedup_entities_loop_append)
  qed
  from 1 2 3 show ?thesis by blast
qed

theorem remote_label_authoritative_witness:
  "entity_key ex_local = entity_key ex_remote
   \<and> ent_source ex_local \<noteq> ''openai'' \<and> ent_source ex_remote = ''openai''
   \<and> map ent_label (deduplicate_entities [ex_local, ex_remote]) = [''CONCEPT'']
   \<and> map ent_label (deduplicate_entities [ex_remote, ex_local]) = [''CONCEPT'']
   \<and> entity_key ex_local \<in> entity_key ` set [ex_remote]
   \<and> map ent_label (deduplicate_entities ([ex_remote] @ [ex_local]))
       = map ent_label (deduplicate_entities [ex_remote])"
proof -
  have h1: "entity_key ex_local = entity_key ex_remote" by (simp add: ex_keys)
  have h2: "ent_source ex_local \<noteq> ''openai''" by (simp add: ex_local_def)
  have h3: "ent_source ex_remote = ''openai''" by (simp add: ex_remote_def)
  have h4: "entity_key ex_local \<in> entity_key ` set [ex_remote]" by (simp add: ex_keys)
  have l: "ent_label ex_remote = ''CONCEPT''" by (simp add: ex_remote_def)
  note t = remote_label_authoritative [OF h1 h2 h3, of "[ex_remote]"]
  from t l have a: "map ent_label (deduplicate_entities [ex_local, ex_remote]) = [''CONCEPT'']"
    and b: "map ent_label (deduplicate_entities [ex_remote, ex_local]) = [''CONCEPT'']"
    by simp_all
  from t h4 have c: "map ent_label (deduplicate_entities ([ex_remote] @ [ex_local]))
                     = map ent_label (deduplicate_entities [ex_remote])"
    by blast
  from h1 h2 h3 h4 a b c show ?thesis by blast
qed

subsection \<open>Relationship identity\<close>

text \<open>
  Against claim C2 as it is worded: two relationships that agree after lower-casing and
  trimming every component are both kept, when their types differ in case and when their
  sources differ in surrounding white space.
\<close>

theorem relationship_key_counterexample:
  "rel_key_all_normalised (ex_rel ''Ada'' ''Graph'' ''discusses'')
     = rel_key_all_normalised (ex_rel ''Ada'' ''Graph'' ''Discusses'')
   \<and> deduplicate_relationships [ex_rel ''Ada'' ''Graph'' ''discusses'', ex_rel ''Ada'' ''Graph'' ''Discusses'']
     = [ex_rel ''Ada'' ''Graph'' ''discusses'', ex_rel ''Ada'' ''Graph'' ''Discusses'']
   \<and> rel_key_all_normalised (ex_rel ''Ada'' ''Graph'' ''discusses'')
     = rel_key_all_normalised (ex_rel ''Ada '' ''Graph'' ''discusses'')
   \<and> deduplicate_relationships [ex_rel ''Ada'' ''Graph'' ''discusses'', ex_rel ''Ada '' ''Graph'' ''discusses'']
     = [ex_rel ''Ada'' ''Graph'' ''discusses'', ex_rel ''Ada '' ''Graph'' ''discusses'']"
  by (simp add: deduplicate_relationships_def rel_key_def rel_key_all_normalised_def ex_rel_def string_eval)

text \<open>
  Claim C2, amended. Relationship identity is case-insensitive in source and target and
  exact in the relationship type: on relationships whose source and target carry no
  surrounding white space, the relationship deduplicator keeps the first relationship of
  every identity key (lower-cased trimmed source, lower-cased trimmed target, relationship
  type as written) and drops the later ones, so that two relationships are the same edge
  exactly when these keys agree; direction and type stay distinct.
\<close>

theorem relationship_identity:
  assumes "\<forall>r \<in> set rs. py_strip (rel_source r) = rel_source r \<and> py_strip (rel_target r) = rel_target r"
  shows "deduplicate_relationships rs = first_occurrence_wins rel_identity_key rs
         \<and> distinct (map rel_identity_key (deduplicate_relationships rs))
         \<and> rel_identity_key ` set (deduplicate_relationships rs) = rel_identity_key ` set rs"
proof -
  from assms have "\<And>r. r \<in> set rs \<Longrightarrow> rel_key r = rel_identity_key r"
    by (simp add: rel_identity_key_trimmed)
  then have "first_occurrence_wins rel_key rs = first_occurrence_wins rel_identity_key rs"
    by (rule first_occurrence_wins_cong)
  then have "deduplicate_relationships rs = first_occurrence_wins rel_identity_key rs"
    by (simp add: deduplicate_relationships_eq)
  then show ?thesis
    by (simp add: distinct_first_occurrence_wins keys_first_occurrence_wins)
qed

theorem relationship_identity_witness:
  "list_all (\<lambda>r. py_strip (rel_source r) = rel_source r \<and> py_strip (rel_target r) = rel_target r)
     ex_rels
   \<and> deduplicate_relationships ex_rels
       = [ex_rel ''Ada'' ''Graph'' ''discusses'', ex_rel ''Ada'' ''Graph'' ''depends_on'',
          ex_rel ''Graph'' ''Ada'' ''discusses'']
   \<and> first_occurrence_wins rel_identity_key ex_rels = deduplicate_relationships ex_rels"
proof -
  have h: "\<forall>r \<in> set ex_rels. py_strip (rel_source r) = rel_source r \<and> py_strip (rel_target r) = rel_target r"
    by (simp add: ex_rels_def ex_rel_def string_eval)
  have "deduplicate_relationships ex_rels
       = [ex_rel ''Ada'' ''Graph'' ''discusses'', ex_rel ''Ada'' ''Graph'' ''depends_on'',
          ex_rel ''Graph'' ''Ada'' ''discusses'']"
    by (simp add: ex_rels_def deduplicate_relationships_def rel_key_def ex_rel_def string_eval)
  with h relationship_identity [OF h] show ?thesis by (simp add: list_all_iff)
qed

subsection \<open>Merging a fragment: the edge-drop invariant\<close>

lemma has_node_add_node: "has_node (add_node g n d) m = (m = n \<or> has_node g m)"
  by (auto simp: has_node_def add_node_def AList.dom_update)

lemma g_edges_add_node [simp]: "g_edges (add_node g n d) = g_edges g"
  by (simp add: add_node_def)

lemma g_nodes_add_edge [simp]: "g_nodes (add_edge g u v d) = g_nodes g"
  by (simp add: add_edge_def)

lemma has_node_add_edge [simp]: "has_node (add_edge g u v d) m = has_node g m"
  by (simp add: has_node_def)

lemma edge_keys_add_edge:
  "fst ` set (g_edges (add_edge g u v d)) = insert (u, v) (fst ` set (g_edges g))"
  by (simp add: add_edge_def AList.dom_update)

lemma g_nodes_add_fragment_edge [simp]: "g_nodes (add_fragment_edge rid g e) = g_nodes g"
  by (simp add: add_fragment_edge_def)

lemma g_edges_add_fragment_node [simp]: "g_edges (add_fragment_node rid g n) = g_edges g"
  by (simp add: add_fragment_node_def)

lemma node_ids_add_fragment_node:
  "fst ` set (g_nodes (add_fragment_node rid g n)) = insert (gn_id n) (fst ` set (g_nodes g))"
  by (simp add: add_fragment_node_def add_node_def AList.dom_update)

lemma g_edges_fold_nodes [simp]: "g_edges (foldl (add_fragment_node rid) g ns) = g_edges g"
  by (induction ns arbitrary: g) simp_all

lemma node_ids_fold_nodes:
  "fst ` set (g_nodes (foldl (add_fragment_node rid) g ns)) = fst ` set (g_nodes g) \<union> gn_id ` set ns"
  by (induction ns arbitrary: g) (auto simp: node_ids_add_fragment_node)

lemma g_nodes_fold_edges [simp]: "g_nodes (foldl (add_fragment_edge rid) g es) = g_nodes g"
  by (induction es arbitrary: g) simp_all

lemma edges_closed_iff:
  "edges_closed g = (\<forall>k \<in> fst ` set (g_edges g). has_node g (fst k) \<and> has_node g (snd k))"
  by (force simp: edges_closed_def list_all_iff)

lemma edges_closed_add_fragment_node:
  "edges_closed g \<Longrightarrow> edges_closed (add_fragment_node rid g n)"
  by (auto simp: edges_closed_iff add_fragment_node_def has_node_add_node)

lemma edges_closed_add_edge:
  assumes "edges_closed g" "has_node g u" "has_node g v"
  shows "edges_closed (add_edge g u v d)"
  unfolding edges_closed_iff
proof
  fix k
  assume "k \<in> fst ` set (g_edges (add_edge g u v d))"
  then have "k = (u, v) \<or> k \<in> fst ` set (g_edges g)"
    unfolding edge_keys_add_edge by blast
  with assms show "has_node (add_edge g u v d) (fst k) \<and> has_node (add_edge g u v d) (snd k)"
    unfolding edges_closed_iff by auto
qed

lemma edges_closed_add_fragment_edge:
  "edges_closed g \<Longrightarrow> edges_closed (add_fragment_edge rid g e)"
  by (simp add: add_fragment_edge_def edges_closed_add_edge)

lemma edges_closed_fold_nodes:
  "edges_closed g \<Longrightarrow> edges_closed (foldl (add_fragment_node rid) g ns)"
  by (induction ns arbitrary: g) (simp_all add: edges_closed_add_fragment_node)

lemma edges_closed_fold_edges:
  "edges_closed g \<Longrightarrow> edges_closed (foldl (add_fragment_edge rid) g es)"
  by (induction es arbitrary: g) (simp_all add: edges_closed_add_fragment_edge)

lemma edges_closed_add_to_networkx_graph:
  "edges_closed g \<Longrightarrow> edges_closed (add_to_networkx_graph rid gd g)"
  by (simp add: add_to_networkx_graph_def edges_closed_fold_nodes edges_closed_fold_edges)

lemma edges_closed_merges:
  "edges_closed g \<Longrightarrow> edges_closed (foldl (\<lambda>g (rid, gd). add_to_networkx_graph rid gd g) g frags)"
  by (induction frags arbitrary: g) (auto simp: edges_closed_add_to_networkx_graph)

lemma new_edge_keys_fold_edges:
  "(u, v) \<in> fst ` set (g_edges (foldl (add_fragment_edge rid) g es)) \<Longrightarrow>
   (u, v) \<notin> fst ` set (g_edges g) \<Longrightarrow> has_node g u \<and> has_node g v"
proof (induction es arbitrary: g)
  case Nil
  then show ?case by simp
next
  case (Cons e es)
  show ?case
  proof (cases "(u, v) \<in> fst ` set (g_edges (add_fragment_edge rid g e))")
    case True
    with Cons.prems(2) show ?thesis
      by (auto simp: add_fragment_edge_def edge_keys_add_edge split: if_splits)
  next
    case False
    from Cons.IH [OF _ False] Cons.prems(1) show ?thesis by (simp add: has_node_def)
  qed
qed

lemma dropped_edges_fold_edges:
  "\<forall>e \<in> set es. \<not> (has_node g (ge_source e) \<and> has_node g (ge_target e)) \<Longrightarrow>
   foldl (add_fragment_edge rid) g es = g"
  by (induction es) (auto simp: add_fragment_edge_def)

lemma abc_store_eq:
  "abc_store =
     \<lparr>g_nodes = [(''A'', \<lparr>nd_label = ''A'', nd_type = ''CONCEPT'', nd_confidence = 1, nd_recording_id = 1\<rparr>),
                 (''B'', \<lparr>nd_label = ''B'', nd_type = ''CONCEPT'', nd_confidence = 1, nd_recording_id = 1\<rparr>),
                 (''C'', \<lparr>nd_label = ''C'', nd_type = ''CONCEPT'', nd_confidence = 1, nd_recording_id = 1\<rparr>)],
      g_edges = [((''A'', ''B''), \<lparr>ed_relationship = ''leads'', ed_confidence = 0.7, ed_recording_id = 1\<rparr>),
                 ((''B'', ''C''), \<lparr>ed_relationship = ''leads'', ed_confidence = 0.7, ed_recording_id = 1\<rparr>)]\<rparr>"
  by (simp add: abc_store_def abc_fragment_def add_to_networkx_graph_def add_fragment_node_def
      add_fragment_edge_def add_node_def add_edge_def has_node_def empty_graph_def ex_node_def ex_edge_def)

text \<open>
  Claim C7. Edge-drop invariant. After a fragment is merged into the store, every edge of
  the store that was not there before joins two nodes of the store; when each edge of the
  fragment has an endpoint that is neither a node of the store nor a node of the fragment,
  the edge count is unchanged; a store whose edges join nodes of the store keeps that
  property, and so every store built from the empty store by merging fragments has it.
\<close>

theorem edge_drop_invariant:
  fixes g gd rid
  defines "g' \<equiv> add_to_networkx_graph rid gd g"
  shows "(\<forall>(u, v) \<in> fst ` set (g_edges g') - fst ` set (g_edges g). has_node g' u \<and> has_node g' v)
   \<and> ((\<forall>e \<in> set (gd_edges gd).
          ge_source e \<notin> fst ` set (g_nodes g) \<union> gn_id ` set (gd_nodes gd)
          \<or> ge_target e \<notin> fst ` set (g_nodes g) \<union> gn_id ` set (gd_nodes gd))
        \<longrightarrow> number_of_edges g' = number_of_edges g)
   \<and> (edges_closed g \<longrightarrow> edges_closed g')
   \<and> edges_closed (foldl (\<lambda>g (rid, gd). add_to_networkx_graph rid gd g) empty_graph frags)"
proof -
  let ?g1 = "foldl (add_fragment_node rid) g (gd_nodes gd)"
  have nodes: "has_node g' n = has_node ?g1 n" for n
    by (simp add: g'_def add_to_networkx_graph_def has_node_def)
  have 1: "\<forall>(u, v) \<in> fst ` set (g_edges g') - fst ` set (g_edges g). has_node g' u \<and> has_node g' v"
  proof -
    have "has_node g' u \<and> has_node g' v"
      if "(u, v) \<in> fst ` set (g_edges g')" "(u, v) \<notin> fst ` set (g_edges g)" for u v
    proof -
      from that have "(u, v) \<in> fst ` set (g_edges (foldl (add_fragment_edge rid) ?g1 (gd_edges gd)))"
        "(u, v) \<notin> fst ` set (g_edges ?g1)"
        by (simp_all add: g'_def add_to_networkx_graph_def)
      from new_edge_keys_fold_edges [OF this] show ?thesis
        by (simp add: nodes)
    qed
    then show ?thesis by auto
  qed
  have 2: "number_of_edges g' = number_of_edges g"
    if "\<forall>e \<in> set (gd_edges gd).
          ge_source e \<notin> fst ` set (g_nodes g) \<union> gn_id ` set (gd_nodes gd)
          \<or> ge_target e \<notin> fst ` set (g_nodes g) \<union> gn_id ` set (gd_nodes gd)"
  proof -
    from that have "\<forall>e \<in> set (gd_edges gd). \<not> (has_node ?g1 (ge_source e) \<and> has_node ?g1 (ge_target e))"
      by (auto simp: has_node_def node_ids_fold_nodes)
    then have "foldl (add_fragment_edge rid) ?g1 (gd_edges gd) = ?g1"
      by (rule dropped_edges_fold_edges)
    then show ?thesis by (simp add: g'_def add_to_networkx_graph_def number_of_edges_def)
  qed
  have 3: "edges_closed g \<longrightarrow> edges_closed g'"
    by (simp add: g'_def edges_closed_add_to_networkx_graph)
  have 4: "edges_closed (foldl (\<lambda>g (rid, gd). add_to_networkx_graph rid gd g) empty_graph frags)"
    by (rule edges_closed_merges) (simp add: edges_closed_def empty_graph_def)
  from 1 2 3 4 show ?thesis by blast
qed

theorem edge_drop_invariant_witness:
  "list_all (\<lambda>e. ge_source e \<notin> fst ` set (g_nodes abc_store) \<union> gn_id ` set (gd_nodes dangling_fragment)
                \<or> ge_target e \<notin> fst ` set (g_nodes abc_store) \<union> gn_id ` set (gd_nodes dangling_fragment))
     (gd_edges dangling_fragment)
   \<and> number_of_edges (add_to_networkx_graph 2 dangling_fragment abc_store) = number_of_edges abc_store
   \<and> edges_closed abc_store
   \<and> edges_closed (add_to_networkx_graph 2 dangling_fragment abc_store)
   \<and> (''A'', ''B'') \<in> fst ` set (g_edges abc_store) - fst ` set (g_edges empty_graph)
   \<and> has_node abc_store ''A'' \<and> has_node abc_store ''B''"
proof -
  have h: "\<forall>e \<in> set (gd_edges dangling_fragment).
             ge_source e \<notin> fst ` set (g_nodes abc_store) \<union> gn_id ` set (gd_nodes dangling_fragment)
             \<or> ge_target e \<notin> fst ` set (g_nodes abc_store) \<union> gn_id ` set (gd_nodes dangling_fragment)"
    by (simp add: abc_store_eq dangling_fragment_def ex_edge_def)
  have c: "edges_closed abc_store"
    by (simp add: abc_store_eq edges_closed_def has_node_def)
  have k: "(''A'', ''B'') \<in> fst ` set (g_edges abc_store) - fst ` set (g_edges empty_graph)"
    by (simp add: abc_store_eq empty_graph_def)
  note t = edge_drop_invariant [of 2 dangling_fragment abc_store "[]"]
  from t h have n: "number_of_edges (add_to_networkx_graph 2 dangling_fragment abc_store) = number_of_edges abc_store"
    by blast
  from t c have c': "edges_closed (add_to_networkx_graph 2 dangling_fragment abc_store)"
    by blast
  from edge_drop_invariant [of 1 abc_fragment empty_graph "[]"] k
  have "has_node abc_store ''A'' \<and> has_node abc_store ''B''"
    unfolding abc_store_def [symmetric] by blast
  with h c k n c' show ?thesis by (simp add: list_all_iff)
qed

subsection \<open>Shortest paths follow the direction of the edges\<close>

lemma distinct_singleton_set: "distinct xs \<Longrightarrow> set xs = {x} \<Longrightarrow> xs = [x]"
  by (metis distinct.simps(2) empty_iff insert_iff list.exhaust list.set(2) set_empty singletonD) 

lemma successors_keys_aux:
  "map (\<lambda>((_, b), _). b) (filter (\<lambda>((a, _), _). a = u) es)
   = map snd (filter (\<lambda>k. fst k = u) (map fst es))"
  by (induction es) auto

lemma successors_keys:
  "successors g u = map snd (filter (\<lambda>k. fst k = u) (map fst (g_edges g)))"
  by (simp add: successors_def successors_keys_aux)

lemma successors_unique:
  assumes "distinct (map fst (g_edges g))"
    and "{k \<in> set (map fst (g_edges g)). fst k = u} = {(u, v)}"
  shows "successors g u = [v]"
proof -
  let ?ks = "filter (\<lambda>k. fst k = u) (map fst (g_edges g))"
  from assms(1) have "distinct ?ks" by (rule distinct_filter)
  moreover from assms(2) have "set ?ks = {(u, v)}" by auto
  ultimately have "?ks = [(u, v)]" by (rule distinct_singleton_set)
  then show ?thesis by (simp add: successors_keys)
qed

lemma successors_none:
  assumes "{k \<in> set (map fst (g_edges g)). fst k = u} = {}"
  shows "successors g u = []"
proof -
  have "filter (\<lambda>k. fst k = u) (map fst (g_edges g)) = []"
    unfolding filter_empty_conv using assms by blast
  then show ?thesis by (simp add: successors_keys)
qed


lemma chain_edge_sets:
  assumes edges: "fst ` set (g_edges g) = {(a, b), (b, c)}"
    and ne: "a \<noteq> b" "b \<noteq> c" "a \<noteq> c"
  shows "{k \<in> fst ` set (g_edges g). fst k = a} = {(a, b)}"
    "{k \<in> fst ` set (g_edges g). fst k = b} = {(b, c)}"
    "{k \<in> fst ` set (g_edges g). fst k = c} = {}"
  unfolding edges using ne by auto


lemma bfs_chain_forward:
  assumes sa: "successors g a = [b]" and sb: "successors g b = [c]" and sc: "successors g c = []"
    and ne: "a \<noteq> b" "b \<noteq> c" "a \<noteq> c"
  shows "bfs g c [a] [[a]] = Some [a, b, c]"
proof -
  have "bfs g c [a] [[a]] = bfs g c [a, b] [[b, a]]"
    using ne by (subst bfs.simps) (simp add: sa)
  also have "\<dots> = bfs g c [a, b, c] [[c, b, a]]"
    using ne by (subst bfs.simps) (simp add: sb)
  also have "\<dots> = Some [a, b, c]"
    by (subst bfs.simps) simp
  finally show ?thesis .
qed

lemma bfs_chain_backward:
  assumes sc: "successors g c = []"
    and ne: "a \<noteq> c"
  shows "bfs g a [c] [[c]] = None"
proof -
  have "bfs g a [c] [[c]] = bfs g a [c] []"
    using ne by (subst bfs.simps) (simp add: sc)
  then show ?thesis by simp
qed


text \<open>
  Claim C8. In a store that holds exactly the nodes A, B, C and exactly the edges from A to
  B and from B to C, the shortest path from A to C is A, B, C, there is no path from C to
  A, and the query engine's path search skips the pair (C, A) without a path.
\<close>

theorem shortest_path_directed:
  assumes nodes: "fst ` set (g_nodes g) = {a, b, c}"
    and dist: "distinct (map fst (g_edges g))"
    and edges: "fst ` set (g_edges g) = {(a, b), (b, c)}"
    and ne: "a \<noteq> b" "b \<noteq> c" "a \<noteq> c"
  shows "shortest_path g a c = Inr [a, b, c]
         \<and> shortest_path g c a = Inl NetworkXNoPath
         \<and> find_paths g [(c, a)] = Inr []"
proof -
  note sets = chain_edge_sets [OF edges ne]
  have sa: "successors g a = [b]"
    using dist by (rule successors_unique) (simp add: sets)
  have sb: "successors g b = [c]"
    using dist by (rule successors_unique) (simp add: sets)
  have sc: "successors g c = []"
    by (rule successors_none) (simp add: sets)
  have hn: "has_node g a" "has_node g c" by (simp_all add: has_node_def nodes)
  have 1: "bfs g c [a] [[a]] = Some [a, b, c]"
    using sa sb sc ne by (rule bfs_chain_forward)
  have 2: "bfs g a [c] [[c]] = None"
    using sc ne(3) by (rule bfs_chain_backward)
  have p1: "shortest_path g a c = Inr [a, b, c]"
    unfolding shortest_path_def using 1 hn by simp
  have p2: "shortest_path g c a = Inl NetworkXNoPath"
    unfolding shortest_path_def using 2 hn by simp
  have p3: "find_paths g [(c, a)] = Inr []"
    by (simp add: p2)
  from p1 p2 p3 show ?thesis by blast
qed

theorem shortest_path_directed_witness:
  "fst ` set (g_nodes abc_store) = {''A'', ''B'', ''C''}
   \<and> distinct (map fst (g_edges abc_store))
   \<and> fst ` set (g_edges abc_store) = {(''A'', ''B''), (''B'', ''C'')}
   \<and> shortest_path abc_store ''A'' ''C'' = Inr [''A'', ''B'', ''C'']
   \<and> shortest_path abc_store ''C'' ''A'' = Inl NetworkXNoPath
   \<and> find_paths abc_store [(''C'', ''A'')] = Inr []"
proof -
  have n: "fst ` set (g_nodes abc_store) = {''A'', ''B'', ''C''}" by (simp add: abc_store_eq)
  have d: "distinct (map fst (g_edges abc_store))" by (simp add: abc_store_eq)
  have e: "fst ` set (g_edges abc_store) = {(''A'', ''B''), (''B'', ''C'')}"
    by (simp add: abc_store_eq)
  from shortest_path_directed [OF n d e] n d e show ?thesis by simp
qed

subsection \<open>The query engine\<close>

lemma index_pairs_nth:
  "index_pairs xs
   = concat (map (\<lambda>i. map (\<lambda>j. (xs ! i, xs ! j)) [Suc i..<length xs]) [0..<length xs])"
proof (induction xs)
  case Nil
  then show ?case by simp
next
  case (Cons x xs)
  have "map (Pair x) (map ((!) xs) [0..<length xs]) = map (Pair x) xs"
    by (simp only: map_nth)
  then have a: "map (\<lambda>j. (x, (x # xs) ! j)) [Suc 0..<Suc (length xs)] = map (Pair x) xs"
    by (simp add: map_Suc_upt [symmetric] comp_def del: upt_Suc)
  have b: "map (\<lambda>i. map (\<lambda>j. ((x # xs) ! i, (x # xs) ! j)) [Suc i..<Suc (length xs)])
               (map Suc [0..<length xs])
           = map (\<lambda>i. map (\<lambda>j. (xs ! i, xs ! j)) [Suc i..<length xs]) [0..<length xs]"
    by (simp add: map_Suc_upt [symmetric] del: upt_Suc)
  let ?F = "\<lambda>i. map (\<lambda>j. ((x # xs) ! i, (x # xs) ! j)) [Suc i..<length (x # xs)]"
  have u: "[0..<length (x # xs)] = 0 # map Suc [0..<length xs]"
    by (simp add: upt_conv_Cons map_Suc_upt del: upt_Suc)
  have "concat (map ?F [0..<length (x # xs)]) = ?F 0 @ concat (map ?F (map Suc [0..<length xs]))"
    by (simp only: u list.map concat.simps)
  also have "?F 0 = map (Pair x) xs" using a by (simp del: upt_Suc)
  also have "map ?F (map Suc [0..<length xs])
             = map (\<lambda>i. map (\<lambda>j. (xs ! i, xs ! j)) [Suc i..<length xs]) [0..<length xs]"
    using b by (simp del: upt_Suc)
  finally show ?case using Cons by (simp del: upt_Suc)
qed

lemma index_pairs_subset: "set (index_pairs xs) \<subseteq> set xs \<times> set xs"
  by (induction xs) auto

lemma find_paths_of_nodes:
  "\<forall>(a, b) \<in> set ps. has_node g a \<and> has_node g b \<Longrightarrow>
   find_paths g ps
   = Inr (concat (map (\<lambda>(a, b). case shortest_path g a b of Inr p \<Rightarrow> [p] | Inl _ \<Rightarrow> []) ps))"
proof (induction ps)
  case Nil
  then show ?case by simp
next
  case (Cons p ps)
  obtain a b where p: "p = (a, b)" by (cases p)
  with Cons.prems have "has_node g a" "has_node g b" by auto
  then have "shortest_path g a b = Inl NetworkXNoPath \<or> (\<exists>q. shortest_path g a b = Inr q)"
    by (simp add: shortest_path_def split: option.splits)
  with Cons p show ?case by auto
qed

lemma relevant_ids_are_nodes:
  "set (map rn_id (find_relevant_nodes g query_terms recording_id)) \<subseteq> fst ` set (g_nodes g)"
  by (force simp: find_relevant_nodes_def)

lemma find_paths_relevant:
  "find_paths g (index_pairs (map rn_id (find_relevant_nodes g query_terms recording_id)))
   = Inr (concat (map (\<lambda>(a, b). case shortest_path g a b of Inr p \<Rightarrow> [p] | Inl _ \<Rightarrow> [])
                    (index_pairs (map rn_id (find_relevant_nodes g query_terms recording_id)))))"
proof (rule find_paths_of_nodes)
  let ?ids = "map rn_id (find_relevant_nodes g query_terms recording_id)"
  show "\<forall>(a, b) \<in> set (index_pairs ?ids). has_node g a \<and> has_node g b"
    using index_pairs_subset [of ?ids] relevant_ids_are_nodes [of g query_terms recording_id]
    unfolding has_node_def by blast
qed

lemma index_pairs_short: "length xs \<le> 1 \<Longrightarrow> index_pairs xs = []"
  by (cases xs) (auto)

lemma query_body_success:
  assumes "extract_entities nlp_doc enhanced_entities = Inr query_entities"
  shows "query_body g nlp_doc enhanced_entities recording_id
   = (let query_terms = map (\<lambda>e. py_lower (ent_text e)) query_entities;
          relevant = find_relevant_nodes g query_terms recording_id
      in Inr \<lparr>relevant_nodes = take 10 relevant,
              paths = take 5 (concat (map (\<lambda>(a, b). case shortest_path g a b of Inr p \<Rightarrow> [p] | Inl _ \<Rightarrow> [])
                                         (index_pairs (map rn_id relevant)))),
              related_concepts = take 10 (get_related_concepts g query_terms),
              graph_stats = Some \<lparr>total_nodes = number_of_nodes g, total_edges = number_of_edges g\<rparr>\<rparr>)"
proof -
  let ?terms = "map (\<lambda>e. py_lower (ent_text e)) query_entities"
  let ?rel = "find_relevant_nodes g ?terms recording_id"
  show ?thesis
  proof (cases "length ?rel > 1")
    case True
    then show ?thesis
      using assms by (simp add: query_body_def Let_def find_paths_relevant)
  next
    case False
    then have "index_pairs (map rn_id ?rel) = []" by (intro index_pairs_short) simp
    with False show ?thesis
      using assms by (simp add: query_body_def Let_def)
  qed
qed


lemma query_knowledge_graph_success:
  assumes "extract_entities nlp_doc enhanced_entities = Inr query_entities"
  shows "query_knowledge_graph g nlp_doc enhanced_entities recording_id
   = (let query_terms = map (\<lambda>e. py_lower (ent_text e)) query_entities;
          relevant = find_relevant_nodes g query_terms recording_id
      in \<lparr>relevant_nodes = take 10 relevant,
          paths = take 5 (concat (map (\<lambda>(a, b). case shortest_path g a b of Inr p \<Rightarrow> [p] | Inl _ \<Rightarrow> [])
                                     (index_pairs (map rn_id relevant)))),
          related_concepts = take 10 (get_related_concepts g query_terms),
          graph_stats = Some \<lparr>total_nodes = number_of_nodes g, total_edges = number_of_edges g\<rparr>\<rparr>)"
  by (simp add: query_knowledge_graph_def query_body_success [OF assms] Let_def)

lemma query_knowledge_graph_failure:
  "query_knowledge_graph g (Inl e) enhanced_entities recording_id
   = \<lparr>relevant_nodes = [], paths = [], related_concepts = [], graph_stats = None\<rparr>"
  by (simp add: query_knowledge_graph_def query_body_def extract_entities_def)

text \<open>
  Against claim C1 as it is worded: when the local extractor raises, the result of the
  query has no \<open>graph_stats\<close>, although the store has three nodes and two edges.
\<close>

theorem query_graph_stats_counterexample:
  "graph_stats (query_knowledge_graph abc_store (Inl (OtherException ''E088'')) [] (Some 1)) = None
   \<and> number_of_nodes abc_store = 3 \<and> number_of_edges abc_store = 2"
  by (simp add: query_knowledge_graph_failure abc_store_eq number_of_nodes_def number_of_edges_def)

text \<open>
  Claim C1, amended. Every query whose processing raises no exception returns
  \<open>graph_stats\<close> with the total node count and the total edge count of the whole store,
  whatever the recording id that scopes the node search; when an exception is caught the
  query returns a result whose \<open>relevant_nodes\<close>, \<open>paths\<close> and \<open>related_concepts\<close> are
  empty. The query is a total function into results: it never raises.
\<close>

theorem query_graph_stats:
  "graph_stats (query_knowledge_graph g (Inr ents) enhanced_entities recording_id)
     = Some \<lparr>total_nodes = number_of_nodes g, total_edges = number_of_edges g\<rparr>
   \<and> (\<exists>result. query_body g (Inr ents) enhanced_entities recording_id = Inr result)
   \<and> relevant_nodes (query_knowledge_graph g (Inl e) enhanced_entities recording_id) = []
   \<and> paths (query_knowledge_graph g (Inl e) enhanced_entities recording_id) = []
   \<and> related_concepts (query_knowledge_graph g (Inl e) enhanced_entities recording_id) = []"
proof -
  obtain qs where qs: "extract_entities (Inr ents) enhanced_entities = Inr qs"
    by (simp add: extract_entities_def)
  have "\<exists>result. query_body g (Inr ents) enhanced_entities recording_id = Inr result"
    unfolding query_body_success [OF qs] by (simp add: Let_def)
  with query_knowledge_graph_success [OF qs, of g recording_id]
  show ?thesis by (simp add: Let_def query_knowledge_graph_failure)
qed

lemma twelve_store_eq:
  "twelve_store
   = \<lparr>g_nodes = map (\<lambda>i. (i, \<lparr>nd_label = i, nd_type = ''CONCEPT'', nd_confidence = 1,
                                  nd_recording_id = 1\<rparr>))
                   [''n01'', ''n02'', ''n03'', ''n04'', ''n05'', ''n06'',
                    ''n07'', ''n08'', ''n09'', ''n10'', ''n11'', ''n12''],
      g_edges = [((''n11'', ''n12''),
                  \<lparr>ed_relationship = ''leads'', ed_confidence = 0.7, ed_recording_id = 1\<rparr>)]\<rparr>"
  by (simp add: twelve_store_def twelve_fragment_def add_to_networkx_graph_def
      add_fragment_node_def add_fragment_edge_def add_node_def add_edge_def has_node_def
      empty_graph_def ex_node_def ex_edge_def)

lemma twelve_successors:
  "successors twelve_store u = (if u = ''n11'' then [''n12''] else [])"
  by (simp add: successors_def twelve_store_eq)

lemma twelve_shortest_path:
  assumes "has_node twelve_store a" "has_node twelve_store b" "a \<noteq> b"
  shows "shortest_path twelve_store a b
         = (if a = ''n11'' \<and> b = ''n12'' then Inr [''n11'', ''n12''] else Inl NetworkXNoPath)"
proof -
  have "bfs twelve_store b [a] [[a]]
        = (if a = ''n11'' \<and> b = ''n12'' then Some [''n11'', ''n12''] else None)"
  proof (cases "a = ''n11''")
    case True
    have "bfs twelve_store b [''n11''] [[''n11'']]
          = bfs twelve_store b [''n11'', ''n12''] [[''n12'', ''n11'']]"
      using assms(3) True by (subst bfs.simps) (simp add: twelve_successors)
    also have "\<dots> = (if b = ''n12'' then Some [''n11'', ''n12''] else None)"
      by (subst bfs.simps) (simp add: twelve_successors)
    finally show ?thesis using True by simp
  next
    case False
    have "bfs twelve_store b [a] [[a]] = bfs twelve_store b [a] []"
      using assms(3) False by (subst bfs.simps) (simp add: twelve_successors)
    with False show ?thesis by simp
  qed
  with assms show ?thesis by (simp add: shortest_path_def)
qed


lemma twelve_has_node:
  "has_node twelve_store n
   = (n \<in> set [''n01'', ''n02'', ''n03'', ''n04'', ''n05'', ''n06'',
                 ''n07'', ''n08'', ''n09'', ''n10'', ''n11'', ''n12''])"
  by (simp add: has_node_def twelve_store_eq)

lemma twelve_extract: "extract_entities (Inr []) [ex_query_entity] = Inr [ex_query_entity]"
  by (simp add: extract_entities_def deduplicate_entities_def)

lemma twelve_matched:
  "find_relevant_nodes twelve_store [''n''] None
   = map (\<lambda>i. \<lparr>rn_id = i, rn_label = i, rn_type = ''CONCEPT'', rn_confidence = 1\<rparr>)
       [''n01'', ''n02'', ''n03'', ''n04'', ''n05'', ''n06'',
        ''n07'', ''n08'', ''n09'', ''n10'', ''n11'', ''n12'']"
  by (simp add: find_relevant_nodes_def twelve_store_eq out_of_scope_def label_matches_def
      string_eval sublist_code)

lemma twelve_paths:
  "concat (map (\<lambda>(a, b). case shortest_path twelve_store a b of Inr p \<Rightarrow> [p] | Inl _ \<Rightarrow> [])
            (index_pairs [''n01'', ''n02'', ''n03'', ''n04'', ''n05'', ''n06'',
                          ''n07'', ''n08'', ''n09'', ''n10'', ''n11'', ''n12'']))
   = [[''n11'', ''n12'']]"
  by (simp add: twelve_shortest_path twelve_has_node)

text \<open>
  Against claim C3 as it is worded: twelve nodes match, the ten first are returned, and the
  path that is returned joins the eleventh and the twelfth, which are not among them.
\<close>

theorem capped_paths_counterexample:
  "map rn_id (relevant_nodes (query_knowledge_graph twelve_store (Inr []) [ex_query_entity] None))
     = [''n01'', ''n02'', ''n03'', ''n04'', ''n05'', ''n06'', ''n07'', ''n08'', ''n09'', ''n10'']
   \<and> paths (query_knowledge_graph twelve_store (Inr []) [ex_query_entity] None)
     = [[''n11'', ''n12'']]"
proof -
  have t: "map (\<lambda>e. py_lower (ent_text e)) [ex_query_entity] = [''n'']"
    by (simp add: ex_query_entity_def string_eval)
  have ids: "map rn_id (find_relevant_nodes twelve_store [''n''] None)
             = [''n01'', ''n02'', ''n03'', ''n04'', ''n05'', ''n06'',
                ''n07'', ''n08'', ''n09'', ''n10'', ''n11'', ''n12'']"
    by (simp add: twelve_matched)
  have p: "paths (query_knowledge_graph twelve_store (Inr []) [ex_query_entity] None)
           = take 5 [[''n11'', ''n12'']]"
    unfolding query_knowledge_graph_success [OF twelve_extract] Let_def t ids twelve_paths
    by (simp only: query_result.select_convs)
  have r: "relevant_nodes (query_knowledge_graph twelve_store (Inr []) [ex_query_entity] None)
           = take 10 (find_relevant_nodes twelve_store [''n''] None)"
    unfolding query_knowledge_graph_success [OF twelve_extract] Let_def t
    by (simp only: query_result.select_convs)
  show ?thesis unfolding p r by (simp add: twelve_matched)
qed

text \<open>
  Claim C3, amended. The matched nodes that a query returns are the first ten in scan
  order. Shortest-path lookups are made for every pair of matched nodes, capped or not, in
  the order of the pairs \<open>(i, j)\<close> with \<open>i < j\<close> (\<open>index_pairs_nth\<close>); a pair without a
  path is skipped, and the first five paths found are returned.
\<close>

theorem paths_over_all_matches:
  assumes "extract_entities nlp_doc enhanced_entities = Inr query_entities"
  shows "(let matched = find_relevant_nodes g (map (\<lambda>e. py_lower (ent_text e)) query_entities)
                          recording_id;
              result = query_knowledge_graph g nlp_doc enhanced_entities recording_id
          in relevant_nodes result = take 10 matched
           \<and> paths result
               = take 5 (concat (map (\<lambda>(a, b). case shortest_path g a b of
                                                   Inr p \<Rightarrow> [p] | Inl _ \<Rightarrow> [])
                                   (index_pairs (map rn_id matched))))
           \<and> length (relevant_nodes result) \<le> 10 \<and> length (paths result) \<le> 5)"
  by (simp add: query_knowledge_graph_success [OF assms] Let_def)

lemma abc_successors:
  "successors abc_store ''A'' = [''B'']" "successors abc_store ''B'' = [''C'']"
  "successors abc_store ''C'' = []"
  by (simp_all add: successors_def abc_store_eq)

lemma abc_paths:
  "shortest_path abc_store ''A'' ''B'' = Inr [''A'', ''B'']"
  "shortest_path abc_store ''A'' ''C'' = Inr [''A'', ''B'', ''C'']"
  "shortest_path abc_store ''B'' ''C'' = Inr [''B'', ''C'']"
  by (simp_all add: shortest_path_def has_node_def abc_store_eq [THEN arg_cong, of g_nodes] abc_successors)

theorem paths_over_all_matches_witness:
  "extract_entities (Inr []) [abc_query_entity] = Inr [abc_query_entity]
   \<and> map rn_id (relevant_nodes (query_knowledge_graph abc_store (Inr []) [abc_query_entity] (Some 1)))
       = [''A'', ''B'', ''C'']
   \<and> paths (query_knowledge_graph abc_store (Inr []) [abc_query_entity] (Some 1))
       = [[''A'', ''B''], [''A'', ''B'', ''C''], [''B'', ''C'']]"
proof -
  have x: "extract_entities (Inr []) [abc_query_entity] = Inr [abc_query_entity]"
    by (simp add: extract_entities_def deduplicate_entities_def)
  have t: "map (\<lambda>e. py_lower (ent_text e)) [abc_query_entity] = [''abc'']"
    by (simp add: abc_query_entity_def string_eval)
  have m: "find_relevant_nodes abc_store [''abc''] (Some 1)
           = map (\<lambda>i. \<lparr>rn_id = i, rn_label = i, rn_type = ''CONCEPT'', rn_confidence = 1\<rparr>)
               [''A'', ''B'', ''C'']"
    by (simp add: find_relevant_nodes_def abc_store_eq out_of_scope_def label_matches_def
        string_eval sublist_code)
  have ids: "map rn_id (find_relevant_nodes abc_store [''abc''] (Some 1)) = [''A'', ''B'', ''C'']"
    by (simp add: m)
  have ps: "concat (map (\<lambda>(a, b). case shortest_path abc_store a b of Inr p \<Rightarrow> [p] | Inl _ \<Rightarrow> [])
                     (index_pairs [''A'', ''B'', ''C'']))
            = [[''A'', ''B''], [''A'', ''B'', ''C''], [''B'', ''C'']]"
    by (simp add: abc_paths)
  from paths_over_all_matches [OF x, of abc_store "Some 1"]
  have "relevant_nodes (query_knowledge_graph abc_store (Inr []) [abc_query_entity] (Some 1))
          = take 10 (find_relevant_nodes abc_store [''abc''] (Some 1))"
    and "paths (query_knowledge_graph abc_store (Inr []) [abc_query_entity] (Some 1))
          = take 5 [[''A'', ''B''], [''A'', ''B'', ''C''], [''B'', ''C'']]"
    unfolding Let_def t ids ps by simp_all
  with x show ?thesis by (simp add: m)
qed

subsection \<open>The summary reporter and the scope of a recording id\<close>

lemma recordings_covered_remdups:
  "recordings_covered (get_graph_summary g recording_id)
   = length (remdups (map (\<lambda>(n, d). nd_recording_id d)
                        (filter (\<lambda>(n, d). nd_recording_id d \<noteq> 0) (summary_nodes g recording_id))))"
  by (simp only: get_graph_summary_def Let_def graph_summary.select_convs List.card_set)

lemma placeholder_store_eq:
  "placeholder_store =
     \<lparr>g_nodes = [(''Budget'', \<lparr>nd_label = ''Budget'', nd_type = ''CONCEPT'', nd_confidence = 1,
                              nd_recording_id = 0\<rparr>)],
      g_edges = []\<rparr>"
  by (simp add: placeholder_store_def add_to_networkx_graph_def add_fragment_node_def add_node_def
      empty_graph_def ex_node_def)

text \<open>
  Against claim C9 as it is worded: the only node of the store carries the recording id 0,
  one distinct value, and \<open>recordings_covered\<close> is 0.
\<close>

theorem recordings_covered_counterexample:
  "recordings_covered (get_graph_summary placeholder_store None) = 0
   \<and> card ((\<lambda>(n, d). nd_recording_id d) ` set (summary_nodes placeholder_store None)) = 1"
  by (simp add: recordings_covered_remdups placeholder_store_eq summary_nodes_def)

lemma summary_nodes_scope:
  "set (summary_nodes g recording_id)
   = {(n, d). (n, d) \<in> set (g_nodes g) \<and> \<not> out_of_scope recording_id (nd_recording_id d)}"
  by (auto simp: summary_nodes_def out_of_scope_def split: option.splits)

text \<open>
  Claim C9, amended. For every summary call, \<open>recordings_covered\<close> is the number of
  distinct non-zero recording ids among the node set (the nodes of the given recording id
  when a truthy one is supplied, otherwise all nodes of the store); a node whose recording
  id is the placeholder 0 adds nothing to the count.
\<close>

theorem recordings_covered_nonzero:
  "recordings_covered (get_graph_summary g recording_id)
   = card ({nd_recording_id d | n d.
              (n, d) \<in> set (g_nodes g) \<and> \<not> out_of_scope recording_id (nd_recording_id d)} - {0})"
proof -
  have "set (map (\<lambda>(n, d). nd_recording_id d)
               (filter (\<lambda>(n, d). nd_recording_id d \<noteq> 0) (summary_nodes g recording_id)))
        = {nd_recording_id d | n d.
              (n, d) \<in> set (g_nodes g) \<and> \<not> out_of_scope recording_id (nd_recording_id d)} - {0}"
    using summary_nodes_scope [of g recording_id] by force
  then show ?thesis by (simp add: get_graph_summary_def Let_def)
qed

lemma find_relevant_nodes_falsy:
  "find_relevant_nodes g query_terms (Some 0) = find_relevant_nodes g query_terms None"
  by (simp add: find_relevant_nodes_def out_of_scope_def)

lemma query_body_falsy:
  "query_body g nlp_doc enhanced_entities (Some 0) = query_body g nlp_doc enhanced_entities None"
  by (simp add: query_body_def find_relevant_nodes_falsy Let_def split: sum.splits)

lemma summary_falsy:
  "summary_nodes g (Some 0) = g_nodes g" "summary_nodes g None = g_nodes g"
  "summary_edges g (Some 0) = summary_edges g None"
  by (simp_all add: summary_nodes_def summary_edges_def)

text \<open>
  Claim C10. A falsy recording id disables the scoping: the query with recording id 0
  returns what the query without a recording id returns, the summary for recording id 0 is
  the summary of the whole store, and it counts every node of the store.
\<close>

theorem falsy_recording_id_unscoped:
  "query_knowledge_graph g nlp_doc enhanced_entities (Some 0)
     = query_knowledge_graph g nlp_doc enhanced_entities None
   \<and> get_graph_summary g (Some 0) = get_graph_summary g None
   \<and> total_entities (get_graph_summary g (Some 0)) = number_of_nodes g"
  by (simp add: query_knowledge_graph_def query_body_falsy get_graph_summary_def summary_falsy
      number_of_nodes_def Let_def)

end
